theory Spec2Isabelle
  imports Main "HOL-Library.List_Lexorder"
begin

section \<open>Strings, integers and dictionaries of the source language\<close>

text \<open>
  A Python \<open>str\<close> is a sequence of Unicode code points: \<open>len\<close>, slicing and
  comparison all work on code points.  It is modelled as a list of naturals, so that
  \<open>length\<close> is \<open>len\<close> and the lexicographic order on lists is the order \<open>sorted\<close> uses.
  \<open>u\<close> turns a literal of the theory into such a string.
\<close>

type_synonym pystr = "nat list"

definition u :: "string \<Rightarrow> pystr" where
  "u s = map of_char s"

text \<open>\<open>str(i)\<close> and \<open>%d\<close>: the decimal digits, with a minus sign for negatives.\<close>

fun str_nat :: "nat \<Rightarrow> pystr" where
  "str_nat n = (if n < 10 then [48 + n] else str_nat (n div 10) @ [48 + n mod 10])"

declare str_nat.simps [simp del]

definition str_int :: "int \<Rightarrow> pystr" where
  "str_int i = (if i < 0 then 45 # str_nat (nat (- i)) else str_nat (nat i))"

text \<open>\<open>%2d\<close>: right-aligned in a field of width two, padded with spaces.\<close>

definition fmt_2d :: "int \<Rightarrow> pystr" where
  "fmt_2d i = replicate (2 - length (str_int i)) 32 @ str_int i"

text \<open>\<open>sep.join(parts)\<close>.\<close>

fun join :: "pystr \<Rightarrow> pystr list \<Rightarrow> pystr" where
  "join sep [] = []"
| "join sep [p] = p"
| "join sep (p # q # ps) = p @ sep @ join sep (q # ps)"

text \<open>
  \<open>str.strip()\<close> removes leading and trailing whitespace; \<open>isspace\<close> lists the code
  points Python counts as whitespace.
\<close>

definition isspace :: "nat \<Rightarrow> bool" where
  "isspace c \<longleftrightarrow>
     (9 \<le> c \<and> c \<le> 13) \<or> (28 \<le> c \<and> c \<le> 32) \<or> c = 133 \<or> c = 160 \<or> c = 5760 \<or>
     (8192 \<le> c \<and> c \<le> 8202) \<or> c = 8232 \<or> c = 8233 \<or> c = 8239 \<or> c = 8287 \<or> c = 12288"

definition strip :: "pystr \<Rightarrow> pystr" where
  "strip s = rev (dropWhile isspace (rev (dropWhile isspace s)))"

text \<open>
  A Python \<open>dict\<close> keeps its keys in insertion order; it is an association list with
  distinct keys.  \<open>dict_get\<close> is \<open>d.get(k, default)\<close>, \<open>dict_set\<close> is \<open>d[k] = v\<close>.
\<close>

type_synonym ('k, 'v) dict = "('k \<times> 'v) list"

definition dict_get :: "('k, 'v) dict \<Rightarrow> 'k \<Rightarrow> 'v \<Rightarrow> 'v" where
  "dict_get d k dflt = (case map_of d k of None \<Rightarrow> dflt | Some v \<Rightarrow> v)"

primrec dict_set :: "'k \<Rightarrow> 'v \<Rightarrow> ('k, 'v) dict \<Rightarrow> ('k, 'v) dict" where
  "dict_set k v [] = [(k, v)]"
| "dict_set k v (p # ps) = (if fst p = k then (k, v) # ps else p # dict_set k v ps)"

definition dict_keys :: "('k, 'v) dict \<Rightarrow> 'k list" where
  "dict_keys d = map fst d"

text \<open>The exceptions the program can raise, and \<open>d[k]\<close>, which raises on a missing key.\<close>

datatype py_error = KeyError

definition dict_item :: "('k, 'v) dict \<Rightarrow> 'k \<Rightarrow> py_error + 'v" where
  "dict_item d k = (case map_of d k of None \<Rightarrow> Inl KeyError | Some v \<Rightarrow> Inr v)"

text \<open>\<open>x.get(field, default)\<close> on a record read from JSON, whose fields may be absent.\<close>

definition get_or :: "'a option \<Rightarrow> 'a \<Rightarrow> 'a" where
  "get_or field dflt = (case field of None \<Rightarrow> dflt | Some v \<Rightarrow> v)"

section \<open>The records yabai reports\<close>

text \<open>
  Both queries return JSON objects.  Every field the program reads may be missing from
  an object, so every field is optional here.
\<close>

record window =
  w_app :: "pystr option"
  w_title :: "pystr option"
  w_space :: "int option"
  w_is_hidden :: "bool option"
  w_is_minimized :: "bool option"

record space =
  s_index :: "int option"
  s_display :: "int option"
  s_has_focus :: "bool option"
  s_is_visible :: "bool option"
  s_label :: "pystr option"

definition TERMINAL_APPS :: "pystr list" where
  "TERMINAL_APPS =
     [u ''kitty'', u ''iTerm2'', u ''Terminal'', u ''Alacritty'',
      u ''WezTerm'', u ''Hyper'', u ''Rio'', u ''Tabby'']"

section \<open>ANSI helpers\<close>

text \<open>\<open>_COLOR\<close> is fixed when the module is loaded; it is the parameter \<open>c\<close> below.\<close>

definition ansi :: "bool \<Rightarrow> pystr \<Rightarrow> pystr \<Rightarrow> pystr" where
  "ansi c code text =
     (if c then [27] @ u ''['' @ code @ u ''m'' @ text @ [27] @ u ''[0m'' else text)"

definition dim :: "bool \<Rightarrow> pystr \<Rightarrow> pystr" where
  "dim c text = ansi c (u ''2'') text"

definition green :: "bool \<Rightarrow> pystr \<Rightarrow> pystr" where
  "green c text = ansi c (u ''32'') text"

definition cyan :: "bool \<Rightarrow> pystr \<Rightarrow> pystr" where
  "cyan c text = ansi c (u ''36'') text"

definition yellow :: "bool \<Rightarrow> pystr \<Rightarrow> pystr" where
  "yellow c text = ansi c (u ''33'') text"

section \<open>Formatting the windows of one space\<close>

text \<open>
  The two list comprehensions of \<open>format_windows_for_space\<close> read \<open>w["app"]\<close> of every
  window in turn, and raise \<open>KeyError\<close> at the first window without that field.
\<close>

fun select_terminals :: "window list \<Rightarrow> py_error + window list" where
  "select_terminals [] = Inr []"
| "select_terminals (w # ws) =
     (case w_app w of
        None \<Rightarrow> Inl KeyError
      | Some a \<Rightarrow>
          (case select_terminals ws of
             Inl e \<Rightarrow> Inl e
           | Inr ts \<Rightarrow> Inr (if a \<in> set TERMINAL_APPS then w # ts else ts)))"

fun select_others :: "window list \<Rightarrow> py_error + window list" where
  "select_others [] = Inr []"
| "select_others (w # ws) =
     (case w_app w of
        None \<Rightarrow> Inl KeyError
      | Some a \<Rightarrow>
          (case select_others ws of
             Inl e \<Rightarrow> Inl e
           | Inr os \<Rightarrow> Inr (if a \<notin> set TERMINAL_APPS then w # os else os)))"

text \<open>The title shown for a terminal: stripped, and cut when longer than 50.\<close>

definition shown_title :: "pystr \<Rightarrow> pystr" where
  "shown_title title = (if length title > 50 then take 47 title @ u ''...'' else title)"

text \<open>The first loop: one part per terminal window.\<close>

fun terminal_parts :: "bool \<Rightarrow> pystr list \<Rightarrow> window list \<Rightarrow> py_error + pystr list" where
  "terminal_parts c parts [] = Inr parts"
| "terminal_parts c parts (w # ws) =
     (let title = strip (get_or (w_title w) [])
      in if title \<noteq> [] then
           (case w_app w of
              None \<Rightarrow> Inl KeyError
            | Some a \<Rightarrow>
                terminal_parts c (parts @ [green c (a @ u '': '' @ shown_title title)]) ws)
         else
           (case w_app w of
              None \<Rightarrow> Inl KeyError
            | Some a \<Rightarrow> terminal_parts c (parts @ [green c a]) ws))"

text \<open>The second loop: count the windows of every other app.\<close>

fun count_apps :: "(pystr, int) dict \<Rightarrow> window list \<Rightarrow> py_error + (pystr, int) dict" where
  "count_apps app_counts [] = Inr app_counts"
| "count_apps app_counts (w # ws) =
     (case w_app w of
        None \<Rightarrow> Inl KeyError
      | Some app \<Rightarrow> count_apps (dict_set app (dict_get app_counts app 0 + 1) app_counts) ws)"

text \<open>The third loop: one part per app, in sorted order of the names.\<close>

fun other_parts :: "(pystr, int) dict \<Rightarrow> pystr list \<Rightarrow> pystr list \<Rightarrow> py_error + pystr list" where
  "other_parts app_counts parts [] = Inr parts"
| "other_parts app_counts parts (app # apps) =
     (case dict_item app_counts app of
        Inl e \<Rightarrow> Inl e
      | Inr count \<Rightarrow>
          (if count > 1 then
             other_parts app_counts (parts @ [app @ u '' ('' @ str_int count @ u '')'']) apps
           else other_parts app_counts (parts @ [app]) apps))"

text \<open>The parts of the line, before they are joined.\<close>

definition summary_parts :: "bool \<Rightarrow> window list \<Rightarrow> py_error + pystr list" where
  "summary_parts c windows =
     (case select_terminals windows of
        Inl e \<Rightarrow> Inl e
      | Inr terminals \<Rightarrow>
     (case select_others windows of
        Inl e \<Rightarrow> Inl e
      | Inr others \<Rightarrow>
     (case terminal_parts c [] terminals of
        Inl e \<Rightarrow> Inl e
      | Inr parts \<Rightarrow>
     (case count_apps [] others of
        Inl e \<Rightarrow> Inl e
      | Inr app_counts \<Rightarrow> other_parts app_counts parts (sort (dict_keys app_counts))))))"

definition format_windows_for_space :: "bool \<Rightarrow> window list \<Rightarrow> py_error + pystr" where
  "format_windows_for_space c windows =
     (if windows = [] then Inr (dim c (u ''--''))
      else
        (case summary_parts c windows of
           Inl e \<Rightarrow> Inl e
         | Inr parts \<Rightarrow> Inr (if parts \<noteq> [] then join (u ''  '') parts else dim c (u ''--''))))"

section \<open>The command\<close>

text \<open>
  \<open>dict_append k v d\<close> is the pair of statements
  \<open>if k not in d: d[k] = []\<close> and \<open>d[k].append(v)\<close>, which each of the two grouping passes uses:
  a new key goes to the end of the dictionary, a known key keeps its place.
\<close>

primrec dict_append :: "'k \<Rightarrow> 'v \<Rightarrow> ('k, 'v list) dict \<Rightarrow> ('k, 'v list) dict" where
  "dict_append k v [] = [(k, [v])]"
| "dict_append k v (p # ps) =
     (if fst p = k then (k, snd p @ [v]) # ps else p # dict_append k v ps)"

text \<open>Index the windows by space, skipping the hidden and the minimized ones.\<close>

fun index_windows :: "(int, window list) dict \<Rightarrow> window list \<Rightarrow> (int, window list) dict" where
  "index_windows windows_by_space [] = windows_by_space"
| "index_windows windows_by_space (w # raw_windows) =
     (let space_index = get_or (w_space w) 0
      in if space_index \<le> 0 then index_windows windows_by_space raw_windows
         else if get_or (w_is_hidden w) False then index_windows windows_by_space raw_windows
         else if get_or (w_is_minimized w) False then index_windows windows_by_space raw_windows
         else index_windows (dict_append space_index w windows_by_space) raw_windows)"

text \<open>Group the spaces by display.\<close>

fun group_by_display :: "(int, space list) dict \<Rightarrow> space list \<Rightarrow> (int, space list) dict" where
  "group_by_display by_display [] = by_display"
| "group_by_display by_display (s # raw_spaces) =
     group_by_display (dict_append (get_or (s_display s) 1) s by_display) raw_spaces"

text \<open>
  \<open>any(w["app"] in TERMINAL_APPS for w in wins)\<close> stops at the first terminal, and
  raises at a window without the field that it reaches before that.
\<close>

fun any_terminal :: "window list \<Rightarrow> py_error + bool" where
  "any_terminal [] = Inr False"
| "any_terminal (w # ws) =
     (case w_app w of
        None \<Rightarrow> Inl KeyError
      | Some a \<Rightarrow> if a \<in> set TERMINAL_APPS then Inr True else any_terminal ws)"

text \<open>What the run has printed and collected so far.\<close>

record tally =
  out :: "pystr list"
  free_indices :: "int list"
  terminal_indices :: "int list"

definition indicator :: "bool \<Rightarrow> bool \<Rightarrow> pystr" where
  "indicator focused visible =
     (let ind = u '' '';
          ind = (if focused then u ''*'' else ind);
          ind = (if \<not> focused \<and> visible then [183] else ind)
      in ind)"

definition space_line :: "int \<Rightarrow> pystr \<Rightarrow> pystr \<Rightarrow> pystr \<Rightarrow> pystr" where
  "space_line idx ind label_text win_text =
     u ''  '' @ fmt_2d idx @ u '' '' @ ind @ u ''  '' @ label_text @ win_text"

text \<open>
  The inner loop, over the spaces of one display.  An exception leaves the loop with
  what had been printed until then.
\<close>

fun spaces_loop ::
  "bool \<Rightarrow> (int, window list) dict \<Rightarrow> tally \<Rightarrow> space list \<Rightarrow> (py_error \<times> tally) + tally" where
  "spaces_loop c windows_by_space t [] = Inr t"
| "spaces_loop c windows_by_space t (space # spaces) =
     (let idx = get_or (s_index space) 0;
          label = get_or (s_label space) [];
          focused = get_or (s_has_focus space) False;
          visible = get_or (s_is_visible space) False;
          wins = dict_get windows_by_space idx []
      in case format_windows_for_space c wins of
           Inl e \<Rightarrow> Inl (e, t)
         | Inr win_text \<Rightarrow>
             (let label_text = (if label \<noteq> [] then dim c (u ''['' @ label @ u ''] '') else []);
                  t = (if wins = [] then t\<lparr>free_indices := free_indices t @ [idx]\<rparr> else t)
              in case any_terminal wins of
                   Inl e \<Rightarrow> Inl (e, t)
                 | Inr has_terminal \<Rightarrow>
                     (let t = (if has_terminal
                               then t\<lparr>terminal_indices := terminal_indices t @ [idx]\<rparr> else t);
                          t = t\<lparr>out := out t @
                                 [space_line idx (indicator focused visible) label_text win_text]\<rparr>
                      in spaces_loop c windows_by_space t spaces)))"

definition display_header :: "bool \<Rightarrow> int \<Rightarrow> nat \<Rightarrow> pystr" where
  "display_header c display_idx n =
     cyan c (u ''display '' @ str_int display_idx) @
     dim c (u '' ('' @ str_int (int n) @ u '' spaces)'')"

text \<open>The outer loop, over the sorted display numbers.\<close>

fun displays_loop ::
  "bool \<Rightarrow> (int, space list) dict \<Rightarrow> (int, window list) dict \<Rightarrow> tally \<Rightarrow> int list \<Rightarrow>
   (py_error \<times> tally) + tally" where
  "displays_loop c by_display windows_by_space t [] = Inr t"
| "displays_loop c by_display windows_by_space t (display_idx # rest) =
     (case dict_item by_display display_idx of
        Inl e \<Rightarrow> Inl (e, t)
      | Inr members \<Rightarrow>
          (let spaces = sort_key (\<lambda>s. get_or (s_index s) 0) members;
               t = t\<lparr>out := out t @ [display_header c display_idx (length spaces)]\<rparr>
           in case spaces_loop c windows_by_space t spaces of
                Inl x \<Rightarrow> Inl x
              | Inr t \<Rightarrow>
                  displays_loop c by_display windows_by_space (t\<lparr>out := out t @ [[]]\<rparr>) rest))"

text \<open>The summary line: free count and terminal count, with the space indices.\<close>

definition summary_line :: "bool \<Rightarrow> int list \<Rightarrow> int list \<Rightarrow> pystr" where
  "summary_line c free term =
     (let summary_parts =
            (if free \<noteq> [] then
               [green c (str_int (int (length free)) @ u '' free'') @
                dim c (u '' ('' @ join (u '', '') (map str_int free) @ u '')'')]
             else [yellow c (u ''0 free'')]);
          summary_parts =
            (if term \<noteq> [] then
               summary_parts @
               [str_int (int (length term)) @ u '' with terminals'' @
                dim c (u '' ('' @ join (u '', '') (map str_int term) @ u '')'')]
             else summary_parts)
      in join (u ''  '') summary_parts)"

text \<open>
  How a run ends, and what it leaves on standard output (one entry per \<open>print\<close>).
  The three queries are outside the program: their answers are the arguments of \<open>cli\<close>,
  \<open>None\<close> where \<open>query_yabai\<close> returns \<open>None\<close>.
\<close>

datatype outcome = Returned | SysExit int | Uncaught py_error

record run =
  stdout :: "pystr list"
  outcome :: outcome

fun exit_code :: "outcome \<Rightarrow> int" where
  "exit_code Returned = 0"
| "exit_code (SysExit n) = n"
| "exit_code (Uncaught e) = 1"

definition render ::
  "bool \<Rightarrow> space list \<Rightarrow> window list \<Rightarrow> (py_error \<times> tally) + tally" where
  "render c raw_spaces raw_windows =
     (let windows_by_space = index_windows [] raw_windows;
          by_display = group_by_display [] raw_spaces
      in displays_loop c by_display windows_by_space
           \<lparr>out = [], free_indices = [], terminal_indices = []\<rparr>
           (sort (dict_keys by_display)))"

definition cli ::
  "bool \<Rightarrow> space list option \<Rightarrow> window list option \<Rightarrow> pystr list \<Rightarrow> run" where
  "cli c spaces_answer windows_answer tmux =
     (case spaces_answer of
        None \<Rightarrow>
          \<lparr>stdout = [u ''error: couldn't query yabai (is it running?)''], outcome = SysExit 1\<rparr>
      | Some raw_spaces \<Rightarrow>
          (let raw_windows = (case windows_answer of None \<Rightarrow> [] | Some ws \<Rightarrow> ws)
           in case render c raw_spaces raw_windows of
                Inl (e, t) \<Rightarrow> \<lparr>stdout = out t, outcome = Uncaught e\<rparr>
              | Inr t \<Rightarrow>
                  \<lparr>stdout = out t @ [summary_line c (free_indices t) (terminal_indices t)] @
                            (if tmux \<noteq> [] then [dim c (u ''tmux: '' @ join (u ''  '') tmux)]
                             else []),
                   outcome = Returned\<rparr>))"

section \<open>Notions used to state the properties\<close>

text \<open>
  A window has an app name when the field is present; \<open>app_name\<close> reads it.  A window
  is a terminal when its app name is, exactly, one of \<open>TERMINAL_APPS\<close>.
\<close>

definition has_app :: "window \<Rightarrow> bool" where
  "has_app w \<longleftrightarrow> w_app w \<noteq> None"

definition app_name :: "window \<Rightarrow> pystr" where
  "app_name w = get_or (w_app w) []"

definition is_terminal :: "window \<Rightarrow> bool" where
  "is_terminal w \<longleftrightarrow> (case w_app w of None \<Rightarrow> False | Some a \<Rightarrow> a \<in> set TERMINAL_APPS)"

text \<open>The entry of one terminal window, and the entry of an app with \<open>n\<close> windows.\<close>

definition terminal_entry :: "bool \<Rightarrow> window \<Rightarrow> pystr" where
  "terminal_entry c w =
     (let t = strip (get_or (w_title w) [])
      in green c (if t \<noteq> [] then app_name w @ u '': '' @ shown_title t else app_name w))"

definition app_entry :: "pystr \<Rightarrow> nat \<Rightarrow> pystr" where
  "app_entry a n = (if n > 1 then a @ u '' ('' @ str_int (int n) @ u '')'' else a)"

definition other_apps :: "window list \<Rightarrow> pystr list" where
  "other_apps ws = map app_name (filter (\<lambda>w. \<not> is_terminal w) ws)"

text \<open>
  Alphabetical order as a dictionary has it: names are compared letter by letter with
  capitals and small letters taken as the same letter.
\<close>

definition fold_case :: "nat \<Rightarrow> nat" where
  "fold_case c = (if 65 \<le> c \<and> c \<le> 90 then c + 32 else c)"

definition alphabetical :: "pystr list \<Rightarrow> bool" where
  "alphabetical names \<longleftrightarrow> sorted (map (map fold_case) names)"

text \<open>The dictionary the counting loop builds when no window lacks its app name.\<close>

primrec counted :: "(pystr, int) dict \<Rightarrow> window list \<Rightarrow> (pystr, int) dict" where
  "counted d [] = d"
| "counted d (w # ws) = counted (dict_set (app_name w) (dict_get d (app_name w) 0 + 1) d) ws"

text \<open>
  The fields with their defaults.  A window is excluded when it is on no space, hidden
  or minimized; \<open>windows_on ws i\<close> are the windows of \<open>ws\<close> that count for space \<open>i\<close>.
\<close>

definition space_of :: "window \<Rightarrow> int" where
  "space_of w = get_or (w_space w) 0"

definition excluded :: "window \<Rightarrow> bool" where
  "excluded w \<longleftrightarrow>
     space_of w \<le> 0 \<or> get_or (w_is_hidden w) False \<or> get_or (w_is_minimized w) False"

definition windows_on :: "window list \<Rightarrow> int \<Rightarrow> window list" where
  "windows_on ws i = filter (\<lambda>w. \<not> excluded w \<and> space_of w = i) ws"

definition idx :: "space \<Rightarrow> int" where
  "idx s = get_or (s_index s) 0"

definition disp :: "space \<Rightarrow> int" where
  "disp s = get_or (s_display s) 1"

text \<open>
  The order in which a run visits the spaces: the displays by ascending number, and on
  each display its spaces by ascending index (spaces of equal index in source order).
\<close>

definition spaces_of_display :: "space list \<Rightarrow> int \<Rightarrow> space list" where
  "spaces_of_display sps d = sort_key idx (filter (\<lambda>s. disp s = d) sps)"

definition visit_order :: "space list \<Rightarrow> space list" where
  "visit_order sps =
     concat (map (spaces_of_display sps) (sorted_list_of_set (set (map disp sps))))"

text \<open>A surviving window whose space is not the index of any space of the list.\<close>

definition orphan :: "space list \<Rightarrow> window \<Rightarrow> bool" where
  "orphan sps w \<longleftrightarrow> \<not> excluded w \<and> space_of w \<notin> set (map idx sps)"

text \<open>
  The line of a space whose windows are summarised as \<open>text\<close>, and the table of a run
  in which every space is free.
\<close>

definition label_text :: "bool \<Rightarrow> space \<Rightarrow> pystr" where
  "label_text c s =
     (if get_or (s_label s) [] \<noteq> [] then dim c (u ''['' @ get_or (s_label s) [] @ u ''] '')
      else [])"

definition row :: "bool \<Rightarrow> space \<Rightarrow> pystr \<Rightarrow> pystr" where
  "row c s text =
     space_line (idx s)
       (indicator (get_or (s_has_focus s) False) (get_or (s_is_visible s) False))
       (label_text c s) text"

text \<open>What visiting one space adds to the tally.\<close>

definition visited :: "bool \<Rightarrow> window list \<Rightarrow> space \<Rightarrow> pystr \<Rightarrow> tally \<Rightarrow> tally" where
  "visited c wins s text t =
     \<lparr>out = out t @ [row c s text],
      free_indices = free_indices t @ (if wins = [] then [idx s] else []),
      terminal_indices = terminal_indices t @ (if list_ex is_terminal wins then [idx s] else [])\<rparr>"

definition free_table :: "bool \<Rightarrow> space list \<Rightarrow> pystr list" where
  "free_table c sps =
     concat (map (\<lambda>d. display_header c d (length (spaces_of_display sps d)) #
                       map (\<lambda>s. row c s (dim c (u ''--''))) (spaces_of_display sps d) @ [[]])
                 (sorted_list_of_set (set (map disp sps))))"

section \<open>Example inputs\<close>

definition mk_window :: "string \<Rightarrow> string \<Rightarrow> int \<Rightarrow> window" where
  "mk_window app title sp =
     \<lparr>w_app = Some (u app), w_title = Some (u title), w_space = Some sp,
      w_is_hidden = Some False, w_is_minimized = Some False\<rparr>"

definition mk_space :: "int \<Rightarrow> int \<Rightarrow> space" where
  "mk_space i d =
     \<lparr>s_index = Some i, s_display = Some d, s_has_focus = Some False,
      s_is_visible = Some False, s_label = Some []\<rparr>"

definition long_title :: string where
  "long_title = ''123456789012345678901234567890123456789012345678901''"

section \<open>The parts of a summary\<close>

lemma app_Some:
  "w_app w = Some a \<Longrightarrow> has_app w"
  "w_app w = Some a \<Longrightarrow> app_name w = a"
  "w_app w = Some a \<Longrightarrow> is_terminal w \<longleftrightarrow> a \<in> set TERMINAL_APPS"
  by (simp_all add: has_app_def app_name_def is_terminal_def get_or_def)

lemma app_None: "w_app w = None \<Longrightarrow> \<not> has_app w"
  by (simp add: has_app_def)

lemma has_appE: "has_app w \<Longrightarrow> \<exists>a. w_app w = Some a"
  by (simp add: has_app_def)

lemma select_terminals_eq:
  "select_terminals ws = (if list_all has_app ws then Inr (filter is_terminal ws) else Inl KeyError)"
proof (induction ws)
  case Nil
  show ?case by simp
next
  case (Cons w ws)
  show ?case
  proof (cases "w_app w")
    case None
    then show ?thesis by (simp add: app_None)
  next
    case (Some a)
    then show ?thesis using Cons by (simp add: app_Some)
  qed
qed

lemma select_others_eq:
  "select_others ws =
     (if list_all has_app ws then Inr (filter (\<lambda>w. \<not> is_terminal w) ws) else Inl KeyError)"
proof (induction ws)
  case Nil
  show ?case by simp
next
  case (Cons w ws)
  show ?case
  proof (cases "w_app w")
    case None
    then show ?thesis by (simp add: app_None)
  next
    case (Some a)
    then show ?thesis using Cons by (simp add: app_Some)
  qed
qed

lemma terminal_parts_eq:
  "list_all has_app ws \<Longrightarrow>
   terminal_parts c parts ws = Inr (parts @ map (terminal_entry c) ws)"
proof (induction ws arbitrary: parts)
  case Nil
  show ?case by simp
next
  case (Cons w ws)
  then obtain a where a: "w_app w = Some a" using has_appE by auto
  from Cons.prems have "list_all has_app ws" by simp
  note IH = Cons.IH [OF this]
  show ?case
    by (simp only: terminal_parts.simps Let_def a option.case IH terminal_entry_def
          app_Some(2) [OF a] list.map append_assoc append.simps if_distrib [of "green c"]
          split: if_split)
       simp
qed

lemma map_of_dict_set: "map_of (dict_set k v d) = (map_of d)(k \<mapsto> v)"
  by (induction d) (auto simp: fun_eq_iff)

lemma keys_dict_set: "set (dict_keys (dict_set k v d)) = insert k (set (dict_keys d))"
  by (induction d) (auto simp: dict_keys_def)

lemma distinct_dict_set:
  "distinct (dict_keys d) \<Longrightarrow> distinct (dict_keys (dict_set k v d))"
proof (induction d)
  case Nil
  then show ?case by (simp add: dict_keys_def)
next
  case (Cons p d)
  have "set (map fst (dict_set k v d)) = insert k (set (map fst d))"
    using keys_dict_set [of k v d] by (simp add: dict_keys_def)
  with Cons show ?case by (auto simp: dict_keys_def)
qed

lemma dict_get_Nil: "dict_get [] k dflt = dflt"
  by (simp add: dict_get_def)

lemma dict_get_dict_set:
  "dict_get (dict_set k v d) j dflt = (if j = k then v else dict_get d j dflt)"
  by (simp add: dict_get_def map_of_dict_set)

lemma count_apps_eq:
  "list_all has_app ws \<Longrightarrow> count_apps d ws = Inr (counted d ws)"
proof (induction ws arbitrary: d)
  case Nil
  show ?case by simp
next
  case (Cons w ws)
  from Cons.prems have "has_app w" by simp
  then obtain a where a: "w_app w = Some a" using has_appE by blast
  from Cons.prems have "list_all has_app ws" by simp
  note IH = Cons.IH [OF this]
  show ?case by (simp add: a app_Some(2) [OF a] IH)
qed

lemma keys_counted:
  "set (dict_keys (counted d ws)) = set (dict_keys d) \<union> app_name ` set ws"
  by (induction ws arbitrary: d) (simp_all add: keys_dict_set)

lemma distinct_counted:
  "distinct (dict_keys d) \<Longrightarrow> distinct (dict_keys (counted d ws))"
  by (induction ws arbitrary: d) (simp_all add: distinct_dict_set)

lemma dict_get_counted:
  "dict_get (counted d ws) a 0 = dict_get d a 0 + int (length (filter (\<lambda>w. app_name w = a) ws))"
  by (induction ws arbitrary: d) (simp_all add: dict_get_dict_set)

lemma other_parts_eq:
  "set apps \<subseteq> set (dict_keys d) \<Longrightarrow>
   other_parts d parts apps =
     Inr (parts @ map (\<lambda>a. app_entry a (nat (dict_get d a 0))) apps)"
proof (induction apps arbitrary: parts)
  case Nil
  then show ?case by simp
next
  case (Cons a apps)
  then have "a \<in> fst ` set d" by (simp add: dict_keys_def)
  then obtain n where n: "map_of d a = Some n"
    by (metis domD dom_map_of_conv_image_fst)
  have g: "dict_get d a 0 = n" and i: "dict_item d a = Inr n"
    using n by (simp_all add: dict_get_def dict_item_def)
  from Cons.prems have sub: "set apps \<subseteq> set (dict_keys d)" by simp
  note IH = Cons.IH [OF sub]
  have e: "app_entry a (nat n) = (if n > 1 then a @ u '' ('' @ str_int n @ u '')'' else a)"
    unfolding app_entry_def by (cases "n > 1") simp_all
  show ?case
    unfolding other_parts.simps i sum.case IH list.map g e by (cases "n > 1") simp_all
qed

lemma sort_distinct_keys:
  "distinct (xs :: 'a :: linorder list) \<Longrightarrow> sort xs = sorted_list_of_set (set xs)"
  by (simp add: sorted_list_of_set_sort_remdups distinct_remdups_id)

lemma summary_parts_eq:
  "summary_parts c ws =
     (if list_all has_app ws then
        Inr (map (terminal_entry c) (filter is_terminal ws) @
             map (\<lambda>a. app_entry a (length (filter (\<lambda>w. app_name w = a) ws)))
                 (sorted_list_of_set (set (other_apps ws))))
      else Inl KeyError)"
proof (cases "list_all has_app ws")
  case False
  then show ?thesis by (simp add: summary_parts_def select_terminals_eq)
next
  case True
  define ts where "ts = filter is_terminal ws"
  define os where "os = filter (\<lambda>w. \<not> is_terminal w) ws"
  define d where "d = counted [] os"
  define apps where "apps = sorted_list_of_set (set (other_apps ws))"
  have ts: "list_all has_app ts" and os: "list_all has_app os"
    using True by (simp_all add: ts_def os_def list_all_iff)
  have keys: "set (dict_keys d) = set (other_apps ws)"
    using keys_counted [of "[]" os] by (simp add: d_def other_apps_def os_def dict_keys_def)
  have dist: "distinct (dict_keys d)"
    unfolding d_def by (rule distinct_counted) (simp add: dict_keys_def)
  have srt: "sort (dict_keys d) = apps"
    using keys dist by (simp add: sort_distinct_keys apps_def)
  have cnt: "nat (dict_get d a 0) = length (filter (\<lambda>w. app_name w = a) ws)"
    if "a \<in> set apps" for a
  proof -
    from that have "a \<in> set (other_apps ws)" by (simp add: apps_def)
    then obtain v where v: "v \<in> set ws" "\<not> is_terminal v" "app_name v = a"
      by (auto simp: other_apps_def)
    from v(1) True have "has_app v" by (simp add: list_all_iff)
    then obtain b where b: "w_app v = Some b" using has_appE by blast
    with v(3) have ba: "b = a" by (simp add: app_Some)
    with b v(2) have nt: "a \<notin> set TERMINAL_APPS" by (simp add: app_Some)
    have "\<not> is_terminal w" if w: "w \<in> set ws" "app_name w = a" for w
    proof -
      from w(1) True have "has_app w" by (simp add: list_all_iff)
      then obtain b' where "w_app w = Some b'" using has_appE by blast
      with w(2) nt show ?thesis by (simp add: app_Some)
    qed
    then have "filter (\<lambda>w. app_name w = a) os = filter (\<lambda>w. app_name w = a) ws"
      unfolding os_def filter_filter by (intro filter_cong) auto
    then show ?thesis
      by (simp add: d_def dict_get_counted dict_get_Nil)
  qed
  have m: "map (\<lambda>a. app_entry a (nat (dict_get d a 0))) apps
         = map (\<lambda>a. app_entry a (length (filter (\<lambda>w. app_name w = a) ws))) apps"
    by (rule map_cong) (simp_all add: cnt)
  have sub: "set apps \<subseteq> set (dict_keys d)"
    using keys by (simp add: apps_def)
  have 1: "select_terminals ws = Inr ts"
    using True by (simp add: select_terminals_eq ts_def)
  have 2: "select_others ws = Inr os"
    using True by (simp add: select_others_eq os_def)
  have 3: "terminal_parts c [] ts = Inr (map (terminal_entry c) ts)"
    using terminal_parts_eq [OF ts, of c "[]"] by simp
  have 4: "count_apps [] os = Inr d"
    using count_apps_eq [OF os] by (simp add: d_def)
  have 5: "other_parts d (map (terminal_entry c) ts) apps =
           Inr (map (terminal_entry c) ts @
                map (\<lambda>a. app_entry a (length (filter (\<lambda>w. app_name w = a) ws))) apps)"
    using other_parts_eq [OF sub] m by simp
  have "summary_parts c ws =
          Inr (map (terminal_entry c) ts @
               map (\<lambda>a. app_entry a (length (filter (\<lambda>w. app_name w = a) ws))) apps)"
    unfolding summary_parts_def 1 2 3 4 sum.case srt 5 ..
  then show ?thesis using True by (simp add: ts_def apps_def)
qed

lemmas eval_defs = mk_window_def u_def TERMINAL_APPS_def strip_def isspace_def get_or_def
  green_def dim_def cyan_def yellow_def ansi_def shown_title_def dict_get_def dict_item_def
  dict_keys_def str_int_def fmt_2d_def Let_def

lemma has_app_app_name: "has_app w \<Longrightarrow> app_name w = a \<longleftrightarrow> w_app w = Some a"
  by (auto simp: has_app_def app_name_def get_or_def)

lemma summary_parts_has_app: "summary_parts c ws = Inr parts \<Longrightarrow> list_all has_app ws"
  by (simp add: summary_parts_eq split: if_splits)

lemma parts_nonempty:
  assumes "summary_parts c ws = Inr parts" and "ws \<noteq> []"
  shows "parts \<noteq> []"
proof (cases "filter is_terminal ws = []")
  case False
  with assms show ?thesis by (auto simp: summary_parts_eq split: if_splits)
next
  case True
  from assms(2) obtain w where w: "w \<in> set ws" by (cases ws) auto
  with True have "\<not> is_terminal w" by (auto simp: filter_empty_conv)
  with w have "app_name w \<in> set (other_apps ws)" by (auto simp: other_apps_def)
  then have "sorted_list_of_set (set (other_apps ws)) \<noteq> []"
    by (metis List.finite_set empty_iff empty_set set_sorted_list_of_set)
  with assms show ?thesis by (auto simp: summary_parts_eq split: if_splits)
qed

section \<open>Terminal windows\<close>

text \<open>
  C3.  Terminal windows are never grouped or deduplicated.  Whenever the summary of a
  window list is built (no window lacks its app name), its first entries are the entries
  of the terminal windows, exactly one per terminal window and in source order: two
  terminal windows of the same app and the same title give two entries.  The line of a
  non-empty list is these parts joined by two spaces.
\<close>

theorem terminals_listed_individually:
  assumes "summary_parts c ws = Inr parts"
  shows "take (length (filter is_terminal ws)) parts =
           map (terminal_entry c) (filter is_terminal ws) \<and>
         (ws \<noteq> [] \<longrightarrow> format_windows_for_space c ws = Inr (join (u ''  '') parts))"
proof -
  from assms have "take (length (filter is_terminal ws)) parts =
           map (terminal_entry c) (filter is_terminal ws)"
    by (auto simp: summary_parts_eq split: if_splits)
  moreover have "format_windows_for_space c ws = Inr (join (u ''  '') parts)" if "ws \<noteq> []"
    using that parts_nonempty [OF assms that] assms by (simp add: format_windows_for_space_def)
  ultimately show ?thesis by blast
qed

theorem terminals_listed_individually_witness:
  "summary_parts False
       [mk_window ''kitty'' ''dev'' 1, mk_window ''Finder'' [] 1, mk_window ''kitty'' ''dev'' 1] =
     Inr [u ''kitty: dev'', u ''kitty: dev'', u ''Finder''] \<and>
   take 2 [u ''kitty: dev'', u ''kitty: dev'', u ''Finder''] =
     map (terminal_entry False) [mk_window ''kitty'' ''dev'' 1, mk_window ''kitty'' ''dev'' 1] \<and>
   format_windows_for_space False
       [mk_window ''kitty'' ''dev'' 1, mk_window ''Finder'' [] 1, mk_window ''kitty'' ''dev'' 1] =
     Inr (u ''kitty: dev  kitty: dev  Finder'')"
proof -
  have h: "summary_parts False
       [mk_window ''kitty'' ''dev'' 1, mk_window ''Finder'' [] 1, mk_window ''kitty'' ''dev'' 1] =
     Inr [u ''kitty: dev'', u ''kitty: dev'', u ''Finder'']"
    by (simp add: summary_parts_def eval_defs)
  have t: "filter is_terminal
       [mk_window ''kitty'' ''dev'' 1, mk_window ''Finder'' [] 1, mk_window ''kitty'' ''dev'' 1] =
     [mk_window ''kitty'' ''dev'' 1, mk_window ''kitty'' ''dev'' 1]"
    by (simp add: is_terminal_def eval_defs)
  have j: "join (u ''  '') [u ''kitty: dev'', u ''kitty: dev'', u ''Finder''] =
     u ''kitty: dev  kitty: dev  Finder''"
    by (simp add: eval_defs)
  show ?thesis
    using terminals_listed_individually [OF h] h unfolding t j by simp
qed

section \<open>Other windows\<close>

text \<open>
  C4, as amended.  After the terminal entries come the entries of the other apps: one
  entry per distinct app name among the non-terminal windows, each rendered as
  \<open>app (n)\<close> where \<open>n\<close> is the exact number of windows of that app, or as \<open>app\<close>
  alone when there is one.  The names are in ascending order of Python strings, which
  is what \<open>sorted\<close> gives: by code point, so that every capital letter comes before
  every small letter.
\<close>

theorem other_apps_grouped:
  assumes "summary_parts c ws = Inr parts"
  shows "drop (length (filter is_terminal ws)) parts =
           map (\<lambda>a. app_entry a (length (filter (\<lambda>w. w_app w = Some a) ws)))
               (sorted_list_of_set (set (other_apps ws))) \<and>
         sorted (sorted_list_of_set (set (other_apps ws))) \<and>
         distinct (sorted_list_of_set (set (other_apps ws)))"
proof -
  from assms have all: "list_all has_app ws" by (rule summary_parts_has_app)
  have "filter (\<lambda>w. app_name w = a) ws = filter (\<lambda>w. w_app w = Some a) ws" for a
    using all by (intro filter_cong) (auto simp: list_all_iff has_app_app_name)
  then have "parts =
      map (terminal_entry c) (filter is_terminal ws) @
      map (\<lambda>a. app_entry a (length (filter (\<lambda>w. w_app w = Some a) ws)))
          (sorted_list_of_set (set (other_apps ws)))"
    using assms all by (simp add: summary_parts_eq)
  then have "drop (length (filter is_terminal ws)) parts =
      map (\<lambda>a. app_entry a (length (filter (\<lambda>w. w_app w = Some a) ws)))
          (sorted_list_of_set (set (other_apps ws)))"
    by simp
  then show ?thesis by simp
qed

theorem other_apps_grouped_witness:
  "summary_parts False
       [mk_window ''mpv'' [] 1, mk_window ''Finder'' ''a'' 1, mk_window ''kitty'' ''dev'' 1,
        mk_window ''Zoom'' [] 1, mk_window ''Finder'' ''b'' 1, mk_window ''Finder'' ''a'' 1] =
     Inr [u ''kitty: dev'', u ''Finder (3)'', u ''Zoom'', u ''mpv''] \<and>
   drop 1 [u ''kitty: dev'', u ''Finder (3)'', u ''Zoom'', u ''mpv''] =
     [app_entry (u ''Finder'') 3, app_entry (u ''Zoom'') 1, app_entry (u ''mpv'') 1]"
proof -
  let ?ws = "[mk_window ''mpv'' [] 1, mk_window ''Finder'' ''a'' 1, mk_window ''kitty'' ''dev'' 1,
        mk_window ''Zoom'' [] 1, mk_window ''Finder'' ''b'' 1, mk_window ''Finder'' ''a'' 1]"
  have h: "summary_parts False ?ws =
      Inr [u ''kitty: dev'', u ''Finder (3)'', u ''Zoom'', u ''mpv'']"
    by (simp add: summary_parts_def eval_defs str_nat.simps)
  have t: "filter is_terminal ?ws = [mk_window ''kitty'' ''dev'' 1]"
    by (simp add: is_terminal_def eval_defs)
  have oa: "other_apps ?ws =
      [u ''mpv'', u ''Finder'', u ''Zoom'', u ''Finder'', u ''Finder'']"
    by (simp add: other_apps_def is_terminal_def app_name_def eval_defs)
  have o: "sorted_list_of_set (set (other_apps ?ws)) = [u ''Finder'', u ''Zoom'', u ''mpv'']"
    unfolding oa sorted_list_of_set_sort_remdups by (simp add: u_def)
  show ?thesis
    using other_apps_grouped [OF h] h unfolding t o
    by (simp add: app_entry_def eval_defs str_nat.simps)
qed

text \<open>
  C4, as stated, fails where it says alphabetical: the windows of \<open>mpv\<close> and
  \<open>Safari\<close> are listed as \<open>Safari\<close>, then \<open>mpv\<close>, because the capital S has the
  smaller code point, while alphabetically \<open>mpv\<close> comes first.
\<close>

theorem alphabetical_counterexample:
  "summary_parts False [mk_window ''mpv'' [] 1, mk_window ''Safari'' [] 1] =
     Inr [u ''Safari'', u ''mpv''] \<and>
   format_windows_for_space False [mk_window ''mpv'' [] 1, mk_window ''Safari'' [] 1] =
     Inr (u ''Safari  mpv'') \<and>
   \<not> alphabetical [u ''Safari'', u ''mpv''] \<and>
   alphabetical [u ''mpv'', u ''Safari'']"
  by (simp add: format_windows_for_space_def summary_parts_def alphabetical_def fold_case_def
        eval_defs)

section \<open>Truncation of titles\<close>

text \<open>
  C5.  For the \<open>i\<close>-th terminal window of a space, with title \<open>t\<close> after stripping
  and \<open>t\<close> not empty: its entry is \<open>app: t\<close> unmodified when \<open>t\<close> has at most 50
  characters, and \<open>app:\<close> followed by the first 47 characters of \<open>t\<close> and three dots
  when \<open>t\<close> has 51 or more; the title so rendered then has exactly 50 characters.
\<close>

theorem title_truncation:
  assumes "summary_parts c ws = Inr parts"
    and "i < length (filter is_terminal ws)"
    and "w = filter is_terminal ws ! i"
    and "t = strip (get_or (w_title w) [])"
    and "t \<noteq> []"
  shows "parts ! i =
           green c (app_name w @ u '': '' @ (if length t \<le> 50 then t else take 47 t @ u ''...'')) \<and>
         (51 \<le> length t \<longrightarrow> length (take 47 t @ u ''...'') = 50)"
proof -
  from assms(1) have "take (length (filter is_terminal ws)) parts =
      map (terminal_entry c) (filter is_terminal ws)"
    by (auto simp: summary_parts_eq split: if_splits)
  then have "take (length (filter is_terminal ws)) parts ! i =
      map (terminal_entry c) (filter is_terminal ws) ! i" by simp
  with assms(2,3) have "parts ! i = terminal_entry c w" by simp
  then have "parts ! i =
      green c (app_name w @ u '': '' @ (if length t \<le> 50 then t else take 47 t @ u ''...''))"
    using assms(4,5) by (simp add: terminal_entry_def shown_title_def Let_def not_less)
  moreover have "length (take 47 t @ u ''...'') = 50" if "51 \<le> length t"
    using that by (simp add: u_def)
  ultimately show ?thesis by blast
qed

theorem title_truncation_witness:
  "summary_parts False [mk_window ''Finder'' [] 1, mk_window ''kitty'' long_title 1] =
     Inr [u ''kitty: 12345678901234567890123456789012345678901234567...'', u ''Finder''] \<and>
   length (strip (u long_title)) = 51 \<and>
   length (u ''12345678901234567890123456789012345678901234567...'') = 50"
proof -
  let ?ws = "[mk_window ''Finder'' [] 1, mk_window ''kitty'' long_title 1]"
  have h: "summary_parts False ?ws =
     Inr [u ''kitty: 12345678901234567890123456789012345678901234567...'', u ''Finder'']"
    by (simp add: summary_parts_def long_title_def eval_defs)
  have f: "filter is_terminal ?ws = [mk_window ''kitty'' long_title 1]"
    by (simp add: is_terminal_def eval_defs)
  have t: "strip (get_or (w_title (mk_window ''kitty'' long_title 1)) []) = u long_title"
    by (simp add: long_title_def eval_defs)
  have n: "u long_title \<noteq> []" "length (u long_title) = 51"
    by (simp_all add: long_title_def u_def)
  have i: "0 < length (filter is_terminal ?ws)"
    and w: "mk_window ''kitty'' long_title 1 = filter is_terminal ?ws ! 0"
    unfolding f by simp_all
  from title_truncation [OF h i w t [symmetric] n(1)] n(2) h
  show ?thesis
    by (simp add: u_def long_title_def strip_def isspace_def)
qed

section \<open>The fatal case: no answer to the space query\<close>

text \<open>
  C7.  When the space query returns \<open>None\<close>, the run prints exactly one line, the
  diagnostic, and nothing else (no table, no summary, no tmux line), and it ends through
  \<open>sys.exit(1)\<close>: the exit code is not zero.  This holds whatever the other two
  queries would have answered.
\<close>

theorem cli_spaces_unavailable:
  "cli c None windows_answer tmux =
     \<lparr>stdout = [u ''error: couldn't query yabai (is it running?)''], outcome = SysExit 1\<rparr> \<and>
   length (stdout (cli c None windows_answer tmux)) = 1 \<and>
   exit_code (outcome (cli c None windows_answer tmux)) \<noteq> 0"
  by (simp add: cli_def)

lemma dict_get_dict_append:
  "dict_get (dict_append k v d) j [] = (if j = k then dict_get d k [] @ [v] else dict_get d j [])"
  by (induction d) (auto simp: dict_get_def)

lemma keys_dict_append:
  "set (dict_keys (dict_append k v d)) = insert k (set (dict_keys d))"
  by (induction d) (auto simp: dict_keys_def)

lemma distinct_dict_append:
  "distinct (dict_keys d) \<Longrightarrow> distinct (dict_keys (dict_append k v d))"
proof (induction d)
  case Nil
  then show ?case by (simp add: dict_keys_def)
next
  case (Cons p d)
  have "set (map fst (dict_append k v d)) = insert k (set (map fst d))"
    using keys_dict_append [of k v d] by (simp add: dict_keys_def)
  with Cons show ?case by (auto simp: dict_keys_def)
qed

lemma dict_item_in_keys:
  "k \<in> set (dict_keys d) \<Longrightarrow> dict_item d k = Inr (dict_get d k dflt)"
proof -
  assume "k \<in> set (dict_keys d)"
  then have "k \<in> fst ` set d" by (simp add: dict_keys_def)
  then obtain v where "map_of d k = Some v"
    by (metis domD dom_map_of_conv_image_fst)
  then show ?thesis by (simp add: dict_item_def dict_get_def)
qed

lemma index_windows_excluded:
  "excluded w \<Longrightarrow> index_windows d (w # ws) = index_windows d ws"
  by (auto simp: excluded_def space_of_def Let_def)

lemma index_windows_kept:
  "\<not> excluded w \<Longrightarrow>
   index_windows d (w # ws) = index_windows (dict_append (space_of w) w d) ws"
  by (auto simp: excluded_def space_of_def Let_def)

lemma index_windows_filter:
  "index_windows d (filter (\<lambda>w. \<not> excluded w) ws) = index_windows d ws"
proof (induction ws arbitrary: d)
  case Nil
  show ?case by simp
next
  case (Cons w ws)
  show ?case
  proof (cases "excluded w")
    case True
    then show ?thesis using Cons by (simp add: index_windows_excluded del: index_windows.simps)
  next
    case False
    then show ?thesis using Cons by (simp add: index_windows_kept del: index_windows.simps)
  qed
qed

lemma dict_get_index_windows:
  "dict_get (index_windows d ws) i [] = dict_get d i [] @ windows_on ws i"
proof (induction ws arbitrary: d)
  case Nil
  show ?case by (simp add: windows_on_def)
next
  case (Cons w ws)
  show ?case
  proof (cases "excluded w")
    case True
    then show ?thesis using Cons
      by (simp add: index_windows_excluded windows_on_def del: index_windows.simps)
  next
    case False
    then show ?thesis using Cons
      by (simp add: index_windows_kept windows_on_def dict_get_dict_append
               del: index_windows.simps)
  qed
qed

lemma dict_get_group_by_display:
  "dict_get (group_by_display d sps) k [] = dict_get d k [] @ filter (\<lambda>s. disp s = k) sps"
  by (induction sps arbitrary: d) (auto simp: dict_get_dict_append disp_def)

lemma keys_group_by_display:
  "set (dict_keys (group_by_display d sps)) = set (dict_keys d) \<union> disp ` set sps"
  by (induction sps arbitrary: d) (auto simp: keys_dict_append disp_def)

lemma distinct_group_by_display:
  "distinct (dict_keys d) \<Longrightarrow> distinct (dict_keys (group_by_display d sps))"
  by (induction sps arbitrary: d) (simp_all add: distinct_dict_append)

lemma sorted_display_keys:
  "sort (dict_keys (group_by_display [] sps)) = sorted_list_of_set (set (map disp sps))"
proof -
  have "distinct (dict_keys (group_by_display [] sps))"
    by (rule distinct_group_by_display) (simp add: dict_keys_def)
  then show ?thesis
    using keys_group_by_display [of "[]" sps]
    by (simp add: sort_distinct_keys dict_keys_def)
qed

lemmas run_defs = cli_def render_def summary_line_def display_header_def space_line_def
  indicator_def format_windows_for_space_def summary_parts_def mk_space_def str_nat.simps

lemma cli_cases:
  "cli c None wa tm =
     \<lparr>stdout = [u ''error: couldn't query yabai (is it running?)''], outcome = SysExit 1\<rparr>"
  "cli c (Some sps) (Some ws) tm =
     (case render c sps ws of
        Inl (e, t) \<Rightarrow> \<lparr>stdout = out t, outcome = Uncaught e\<rparr>
      | Inr t \<Rightarrow>
          \<lparr>stdout = out t @ [summary_line c (free_indices t) (terminal_indices t)] @
                    (if tm \<noteq> [] then [dim c (u ''tmux: '' @ join (u ''  '') tm)] else []),
           outcome = Returned\<rparr>)"
  "cli c (Some sps) None tm = cli c (Some sps) (Some []) tm"
  by (simp_all add: cli_def)

section \<open>Excluded windows\<close>

text \<open>
  C1.  A window whose space is absent or not positive, or that is hidden, or that is
  minimized, is excluded from the aggregation.  Removing all such windows from the
  window list changes neither the index built from it nor the run: the output (every
  rendered summary, the free list, the terminal list) and the outcome are the same.  The
  windows looked up for a space \<open>i\<close> are exactly the surviving windows of that space,
  and none of them is excluded.
\<close>

theorem excluded_windows_ignored:
  "index_windows [] (filter (\<lambda>w. \<not> excluded w) ws) = index_windows [] ws \<and>
   cli c spaces_answer (Some (filter (\<lambda>w. \<not> excluded w) ws)) tmux =
     cli c spaces_answer (Some ws) tmux \<and>
   dict_get (index_windows [] ws) i [] = windows_on ws i \<and>
   list_all (\<lambda>w. \<not> excluded w) (windows_on ws i)"
proof -
  have "render c sps (filter (\<lambda>w. \<not> excluded w) ws) = render c sps ws" for sps
    by (simp add: render_def index_windows_filter)
  then have "cli c spaces_answer (Some (filter (\<lambda>w. \<not> excluded w) ws)) tmux =
     cli c spaces_answer (Some ws) tmux"
    by (cases spaces_answer) (simp_all only: cli_cases)
  moreover have "dict_get (index_windows [] ws) i [] = windows_on ws i"
    by (simp add: dict_get_index_windows dict_get_Nil)
  moreover have "list_all (\<lambda>w. \<not> excluded w) (windows_on ws i)"
    by (simp add: windows_on_def list_all_iff)
  ultimately show ?thesis by (simp add: index_windows_filter)
qed

theorem excluded_windows_ignored_witness:
  "cli False (Some [mk_space 1 1])
     (Some [(mk_window ''kitty'' ''dev'' 1)\<lparr>w_is_hidden := Some True\<rparr>,
            (mk_window ''Finder'' [] 1)\<lparr>w_is_minimized := Some True\<rparr>,
            (mk_window ''kitty'' ''dev'' 1)\<lparr>w_space := None\<rparr>,
            mk_window ''kitty'' ''dev'' 0]) [] =
   \<lparr>stdout = [u ''display 1 (1 spaces)'', u ''   1    --'', [], u ''1 free (1)''],
    outcome = Returned\<rparr>"
proof -
  have f: "filter (\<lambda>w. \<not> excluded w)
     [(mk_window ''kitty'' ''dev'' 1)\<lparr>w_is_hidden := Some True\<rparr>,
      (mk_window ''Finder'' [] 1)\<lparr>w_is_minimized := Some True\<rparr>,
      (mk_window ''kitty'' ''dev'' 1)\<lparr>w_space := None\<rparr>,
      mk_window ''kitty'' ''dev'' 0] = []"
    by (simp add: excluded_def space_of_def eval_defs)
  have e: "cli False (Some [mk_space 1 1]) (Some []) [] =
   \<lparr>stdout = [u ''display 1 (1 spaces)'', u ''   1    --'', [], u ''1 free (1)''],
    outcome = Returned\<rparr>"
    by (simp add: run_defs eval_defs)
  show ?thesis
    using excluded_windows_ignored [of
     "[(mk_window ''kitty'' ''dev'' 1)\<lparr>w_is_hidden := Some True\<rparr>,
      (mk_window ''Finder'' [] 1)\<lparr>w_is_minimized := Some True\<rparr>,
      (mk_window ''kitty'' ''dev'' 1)\<lparr>w_space := None\<rparr>,
      mk_window ''kitty'' ''dev'' 0]" False "Some [mk_space 1 1]" "[]"]
    unfolding f e by simp
qed

section \<open>Records with missing fields\<close>

text \<open>
  C9.  Every field but one is read with a default (\<open>get_or\<close> above: space 0, title
  empty, hidden and minimized false, display 1, index 0, label empty, focus and
  visibility false).  The app name is read as \<open>w["app"]\<close>, without a default.  So the
  claim that a surviving window without the app field does not make the run fail does
  not hold of the code: with one space of index 1 and one visible window on space 1
  that has no app field, the run prints the display header and then ends with an
  uncaught \<open>KeyError\<close>, exit code 1, no space line and no summary.
\<close>

theorem missing_app_raises:
  "cli False (Some [mk_space 1 1])
     (Some [\<lparr>w_app = None, w_title = Some (u ''notes''), w_space = Some 1,
             w_is_hidden = Some False, w_is_minimized = Some False\<rparr>]) [] =
     \<lparr>stdout = [u ''display 1 (1 spaces)''], outcome = Uncaught KeyError\<rparr> \<and>
   exit_code (Uncaught KeyError) \<noteq> 0"
  by (simp add: run_defs eval_defs)

section \<open>Iterating over displays and spaces\<close>

lemma format_Inr_has_app:
  "format_windows_for_space c ws = Inr text \<Longrightarrow> list_all has_app ws"
  by (cases "ws = []")
     (auto simp: format_windows_for_space_def summary_parts_eq split: if_splits sum.splits)

lemma any_terminal_eq:
  "list_all has_app ws \<Longrightarrow> any_terminal ws = Inr (list_ex is_terminal ws)"
proof (induction ws)
  case Nil
  show ?case by simp
next
  case (Cons w ws)
  from Cons.prems have "has_app w" by simp
  then obtain a where a: "w_app w = Some a" using has_appE by blast
  from Cons show ?case by (simp add: a app_Some(3) [OF a])
qed

lemma spaces_loop_Inl:
  "format_windows_for_space c (dict_get wbs (idx s) []) = Inl e \<Longrightarrow>
   spaces_loop c wbs t (s # sps) = Inl (e, t)"
  by (simp add: idx_def Let_def)

lemma spaces_loop_Inr:
  assumes "format_windows_for_space c (dict_get wbs (idx s) []) = Inr text"
  shows "spaces_loop c wbs t (s # sps) =
         spaces_loop c wbs (visited c (dict_get wbs (idx s) []) s text t) sps"
proof -
  have a: "any_terminal (dict_get wbs (idx s) []) =
           Inr (list_ex is_terminal (dict_get wbs (idx s) []))"
    using assms by (intro any_terminal_eq format_Inr_has_app)
  have "visited c (dict_get wbs (idx s) []) s text t =
     (let t1 = (if dict_get wbs (idx s) [] = []
                then t\<lparr>free_indices := free_indices t @ [idx s]\<rparr> else t);
          t2 = (if list_ex is_terminal (dict_get wbs (idx s) [])
                then t1\<lparr>terminal_indices := terminal_indices t1 @ [idx s]\<rparr> else t1)
      in t2\<lparr>out := out t2 @ [row c s text]\<rparr>)"
    by (simp add: visited_def Let_def)
  then show ?thesis
    using assms a
    by (simp add: idx_def [symmetric] Let_def row_def label_text_def)
qed

lemma spaces_loop_indices:
  "spaces_loop c wbs t sps = Inr t' \<Longrightarrow>
   free_indices t' =
     free_indices t @ map idx (filter (\<lambda>s. dict_get wbs (idx s) [] = []) sps) \<and>
   terminal_indices t' =
     terminal_indices t @
     map idx (filter (\<lambda>s. list_ex is_terminal (dict_get wbs (idx s) [])) sps)"
proof (induction sps arbitrary: t)
  case Nil
  then show ?case by simp
next
  case (Cons s sps)
  show ?case
  proof (cases "format_windows_for_space c (dict_get wbs (idx s) [])")
    case (Inl e)
    with Cons.prems show ?thesis by (simp add: spaces_loop_Inl del: spaces_loop.simps)
  next
    case (Inr shown)
    from Cons.prems have
      "spaces_loop c wbs (visited c (dict_get wbs (idx s) []) s shown t) sps = Inr t'"
      by (simp add: spaces_loop_Inr [OF Inr] del: spaces_loop.simps)
    from Cons.IH [OF this] show ?thesis by (simp add: visited_def)
  qed
qed

lemma spaces_loop_cong:
  "\<forall>s\<in>set sps. dict_get wbs1 (idx s) [] = dict_get wbs2 (idx s) [] \<Longrightarrow>
   spaces_loop c wbs1 t sps = spaces_loop c wbs2 t sps"
proof (induction sps arbitrary: t)
  case Nil
  show ?case by simp
next
  case (Cons s sps)
  from Cons.prems have eq: "dict_get wbs1 (idx s) [] = dict_get wbs2 (idx s) []"
    and rest: "\<forall>s\<in>set sps. dict_get wbs1 (idx s) [] = dict_get wbs2 (idx s) []"
    by simp_all
  note IH = Cons.IH [OF rest]
  show ?case
  proof (cases "format_windows_for_space c (dict_get wbs2 (idx s) [])")
    case (Inl e)
    then show ?thesis
      using eq by (simp add: spaces_loop_Inl del: spaces_loop.simps)
  next
    case (Inr shown)
    have 1: "format_windows_for_space c (dict_get wbs1 (idx s) []) = Inr shown"
      using Inr eq by simp
    show ?thesis
      unfolding spaces_loop_Inr [OF 1] spaces_loop_Inr [OF Inr] eq by (rule IH)
  qed
qed

lemma spaces_loop_free:
  "\<forall>s\<in>set sps. dict_get wbs (idx s) [] = [] \<Longrightarrow>
   spaces_loop c wbs t sps =
     Inr \<lparr>out = out t @ map (\<lambda>s. row c s (dim c (u ''--''))) sps,
          free_indices = free_indices t @ map idx sps,
          terminal_indices = terminal_indices t\<rparr>"
proof (induction sps arbitrary: t)
  case Nil
  show ?case by simp
next
  case (Cons s sps)
  from Cons.prems have e: "dict_get wbs (idx s) [] = []"
    and rest: "\<forall>s\<in>set sps. dict_get wbs (idx s) [] = []"
    by simp_all
  have f: "format_windows_for_space c (dict_get wbs (idx s) []) = Inr (dim c (u ''--''))"
    by (simp add: e format_windows_for_space_def)
  show ?case
    unfolding spaces_loop_Inr [OF f] Cons.IH [OF rest] e
    by (simp add: visited_def)
qed

lemma idx_fun: "(\<lambda>s. get_or (s_index s) 0) = idx"
  by (simp add: idx_def fun_eq_iff)

lemma displays_loop_Cons:
  "k \<in> set (dict_keys bd) \<Longrightarrow>
   displays_loop c bd wbs t (k # ks) =
     (case spaces_loop c wbs
             (t\<lparr>out := out t @ [display_header c k (length (dict_get bd k []))]\<rparr>)
             (sort_key idx (dict_get bd k [])) of
        Inl x \<Rightarrow> Inl x
      | Inr t' \<Rightarrow> displays_loop c bd wbs (t'\<lparr>out := out t' @ [[]]\<rparr>) ks)"
  by (simp add: dict_item_in_keys [where dflt = "[]"] Let_def idx_fun)

lemma displays_loop_indices:
  "set ks \<subseteq> set (dict_keys bd) \<Longrightarrow> displays_loop c bd wbs t ks = Inr t' \<Longrightarrow>
   free_indices t' =
     free_indices t @
     map idx (filter (\<lambda>s. dict_get wbs (idx s) [] = [])
                (concat (map (\<lambda>k. sort_key idx (dict_get bd k [])) ks))) \<and>
   terminal_indices t' =
     terminal_indices t @
     map idx (filter (\<lambda>s. list_ex is_terminal (dict_get wbs (idx s) []))
                (concat (map (\<lambda>k. sort_key idx (dict_get bd k [])) ks)))"
proof (induction ks arbitrary: t)
  case Nil
  then show ?case by simp
next
  case (Cons k ks)
  from Cons.prems(1) have k: "k \<in> set (dict_keys bd)" and ks: "set ks \<subseteq> set (dict_keys bd)"
    by simp_all
  let ?t = "t\<lparr>out := out t @ [display_header c k (length (dict_get bd k []))]\<rparr>"
  show ?case
  proof (cases "spaces_loop c wbs ?t (sort_key idx (dict_get bd k []))")
    case (Inl x)
    with Cons.prems(2) show ?thesis
      by (simp add: displays_loop_Cons [OF k] del: displays_loop.simps)
  next
    case (Inr t1)
    with Cons.prems(2) have "displays_loop c bd wbs (t1\<lparr>out := out t1 @ [[]]\<rparr>) ks = Inr t'"
      by (simp add: displays_loop_Cons [OF k] del: displays_loop.simps)
    from Cons.IH [OF ks this] spaces_loop_indices [OF Inr]
    show ?thesis by simp
  qed
qed

lemma displays_loop_cong:
  "set ks \<subseteq> set (dict_keys bd) \<Longrightarrow>
   \<forall>k\<in>set ks. \<forall>s\<in>set (dict_get bd k []).
      dict_get wbs1 (idx s) [] = dict_get wbs2 (idx s) [] \<Longrightarrow>
   displays_loop c bd wbs1 t ks = displays_loop c bd wbs2 t ks"
proof (induction ks arbitrary: t)
  case Nil
  show ?case by simp
next
  case (Cons k ks)
  from Cons.prems(1) have k: "k \<in> set (dict_keys bd)" and ks: "set ks \<subseteq> set (dict_keys bd)"
    by simp_all
  from Cons.prems(2) have
    here: "\<forall>s\<in>set (sort_key idx (dict_get bd k [])).
             dict_get wbs1 (idx s) [] = dict_get wbs2 (idx s) []"
    and rest: "\<forall>k\<in>set ks. \<forall>s\<in>set (dict_get bd k []).
             dict_get wbs1 (idx s) [] = dict_get wbs2 (idx s) []"
    by simp_all
  show ?case
    unfolding displays_loop_Cons [OF k] spaces_loop_cong [OF here] Cons.IH [OF ks rest] ..
qed

lemma displays_loop_free:
  "set ks \<subseteq> set (dict_keys bd) \<Longrightarrow>
   \<forall>k\<in>set ks. \<forall>s\<in>set (dict_get bd k []). dict_get wbs (idx s) [] = [] \<Longrightarrow>
   displays_loop c bd wbs t ks =
     Inr \<lparr>out = out t @
                concat (map (\<lambda>k. display_header c k (length (dict_get bd k [])) #
                               map (\<lambda>s. row c s (dim c (u ''--'')))
                                   (sort_key idx (dict_get bd k [])) @ [[]]) ks),
          free_indices =
            free_indices t @ map idx (concat (map (\<lambda>k. sort_key idx (dict_get bd k [])) ks)),
          terminal_indices = terminal_indices t\<rparr>"
proof (induction ks arbitrary: t)
  case Nil
  show ?case by simp
next
  case (Cons k ks)
  from Cons.prems(1) have k: "k \<in> set (dict_keys bd)" and ks: "set ks \<subseteq> set (dict_keys bd)"
    by simp_all
  from Cons.prems(2) have
    here: "\<forall>s\<in>set (sort_key idx (dict_get bd k [])). dict_get wbs (idx s) [] = []"
    and rest: "\<forall>k\<in>set ks. \<forall>s\<in>set (dict_get bd k []). dict_get wbs (idx s) [] = []"
    by simp_all
  show ?case
    unfolding displays_loop_Cons [OF k] spaces_loop_free [OF here] sum.case
      Cons.IH [OF ks rest]
    by simp
qed

lemma display_keys_present:
  "set (sort (dict_keys (group_by_display [] sps))) \<subseteq> set (dict_keys (group_by_display [] sps))"
  by simp

lemma display_members:
  "dict_get (group_by_display [] sps) k [] = filter (\<lambda>s. disp s = k) sps"
  by (simp add: dict_get_group_by_display dict_get_Nil)

lemma windows_lookup: "dict_get (index_windows [] ws) i [] = windows_on ws i"
  by (simp add: dict_get_index_windows dict_get_Nil)

lemma render_indices:
  assumes "render c sps ws = Inr t"
  shows "free_indices t =
           map idx (filter (\<lambda>s. windows_on ws (idx s) = []) (visit_order sps)) \<and>
         terminal_indices t =
           map idx (filter (\<lambda>s. list_ex is_terminal (windows_on ws (idx s))) (visit_order sps))"
  using displays_loop_indices [OF display_keys_present assms [unfolded render_def Let_def]]
  by (simp add: display_members windows_lookup sorted_display_keys visit_order_def
        spaces_of_display_def [abs_def])

lemma render_no_windows:
  "render c sps [] =
     Inr \<lparr>out = free_table c sps, free_indices = map idx (visit_order sps),
          terminal_indices = []\<rparr>"
proof -
  have "\<forall>k\<in>set (sort (dict_keys (group_by_display [] sps))).
          \<forall>s\<in>set (dict_get (group_by_display [] sps) k []). dict_get [] (idx s) [] = []"
    by (simp add: dict_get_Nil)
  from displays_loop_free [OF display_keys_present this]
  show ?thesis
    by (simp add: render_def display_members sorted_display_keys visit_order_def
          free_table_def spaces_of_display_def [abs_def])
qed

lemma render_cong:
  assumes "\<forall>s\<in>set sps. windows_on ws1 (idx s) = windows_on ws2 (idx s)"
  shows "render c sps ws1 = render c sps ws2"
proof -
  have "\<forall>k\<in>set (sort (dict_keys (group_by_display [] sps))).
          \<forall>s\<in>set (dict_get (group_by_display [] sps) k []).
            dict_get (index_windows [] ws1) (idx s) [] =
            dict_get (index_windows [] ws2) (idx s) []"
    using assms by (simp add: display_members windows_lookup)
  from displays_loop_cong [OF display_keys_present this]
  show ?thesis by (simp add: render_def)
qed

section \<open>The visit order\<close>

lemma set_visit_order: "set (visit_order sps) = set sps"
  by (auto simp: visit_order_def spaces_of_display_def)

lemma sum_list_indicator:
  "distinct ds \<Longrightarrow>
   sum_list (map (\<lambda>d. if x = d then 1 else 0) ds) = (if x \<in> set ds then 1 else (0::nat))"
  by (induction ds) auto

lemma sum_length_filter:
  "distinct ds \<Longrightarrow> f ` set xs \<subseteq> set ds \<Longrightarrow>
   sum_list (map (\<lambda>d. length (filter (\<lambda>x. f x = d) xs)) ds) = length xs"
proof (induction xs)
  case Nil
  show ?case by simp
next
  case (Cons x xs)
  have "sum_list (map (\<lambda>d. length (filter (\<lambda>y. f y = d) (x # xs))) ds) =
        sum_list (map (\<lambda>d. (if f x = d then 1 else 0) + length (filter (\<lambda>y. f y = d) xs)) ds)"
    by (intro arg_cong [where f = sum_list] map_cong) auto
  also have "\<dots> = sum_list (map (\<lambda>d. if f x = d then 1 else 0) ds) +
                  sum_list (map (\<lambda>d. length (filter (\<lambda>y. f y = d) xs)) ds)"
    by (simp add: sum_list_addf)
  also have "\<dots> = 1 + length xs"
    using Cons by (simp add: sum_list_indicator)
  finally show ?case by simp
qed

lemma length_visit_order: "length (visit_order sps) = length sps"
proof -
  have "length (visit_order sps) =
        sum_list (map (\<lambda>d. length (filter (\<lambda>s. disp s = d) sps))
                      (sorted_list_of_set (set (map disp sps))))"
    by (simp add: visit_order_def spaces_of_display_def length_concat comp_def)
  also have "\<dots> = length sps"
    by (rule sum_length_filter) simp_all
  finally show ?thesis .
qed

section \<open>The order of the index lists\<close>

text \<open>
  C6.  In a run that completes, the free list and the terminal list hold the indices in
  the order in which the spaces are visited: displays by ascending number, and on each
  display the spaces by ascending index.  The free list is the visit order restricted
  to the spaces without surviving windows, the terminal list the visit order restricted
  to the spaces with a terminal window; neither is sorted numerically.  The summary line
  is printed from these two lists as they are.
\<close>

theorem index_lists_in_visit_order:
  assumes "render c sps ws = Inr t"
  shows "free_indices t =
           map idx (filter (\<lambda>s. windows_on ws (idx s) = []) (visit_order sps)) \<and>
         terminal_indices t =
           map idx (filter (\<lambda>s. list_ex is_terminal (windows_on ws (idx s))) (visit_order sps)) \<and>
         cli c (Some sps) (Some ws) tmux =
           \<lparr>stdout = out t @ [summary_line c (free_indices t) (terminal_indices t)] @
                     (if tmux \<noteq> [] then [dim c (u ''tmux: '' @ join (u ''  '') tmux)] else []),
            outcome = Returned\<rparr>"
  using render_indices [OF assms] assms by (simp add: cli_cases)

section \<open>No answer to the window query\<close>

text \<open>
  C8.  When the window query gives nothing and the space query succeeds, the run
  returns normally; every space line shows the placeholder; the free list holds the
  index of every space, in visit order; the terminal list is empty and the summary has
  no terminals clause: it is the free count with the list of indices (the \<open>0 free\<close>
  marker when there is no space at all).
\<close>

theorem windows_unavailable_all_free:
  "cli c (Some sps) None tmux =
     \<lparr>stdout = free_table c sps @ [summary_line c (map idx (visit_order sps)) []] @
               (if tmux \<noteq> [] then [dim c (u ''tmux: '' @ join (u ''  '') tmux)] else []),
      outcome = Returned\<rparr> \<and>
   summary_line c (map idx (visit_order sps)) [] =
     (if sps = [] then yellow c (u ''0 free'')
      else green c (str_int (int (length sps)) @ u '' free'') @
           dim c (u '' ('' @ join (u '', '') (map str_int (map idx (visit_order sps))) @ u '')'')) \<and>
   set (visit_order sps) = set sps \<and> length (visit_order sps) = length sps"
proof -
  have "visit_order sps = [] \<longleftrightarrow> sps = []"
    using length_visit_order [of sps] by (metis length_0_conv)
  then have "summary_line c (map idx (visit_order sps)) [] =
     (if sps = [] then yellow c (u ''0 free'')
      else green c (str_int (int (length sps)) @ u '' free'') @
           dim c (u '' ('' @ join (u '', '') (map str_int (map idx (visit_order sps))) @ u '')''))"
    by (simp add: summary_line_def length_visit_order)
  then show ?thesis
    by (simp add: cli_cases render_no_windows set_visit_order length_visit_order)
qed

section \<open>Windows of unlisted spaces\<close>

text \<open>
  C10.  A surviving window whose space is not the index of any space of the space list
  has no effect on the run: removing all such windows from the window list gives the
  same output, line for line, and the same outcome.
\<close>

theorem orphan_windows_ignored:
  "cli c (Some sps) (Some (filter (\<lambda>w. \<not> orphan sps w) ws)) tmux =
   cli c (Some sps) (Some ws) tmux"
proof -
  have "windows_on (filter (\<lambda>w. \<not> orphan sps w) ws) (idx s) = windows_on ws (idx s)"
    if "s \<in> set sps" for s
    unfolding windows_on_def filter_filter
    using that by (intro filter_cong) (auto simp: orphan_def)
  then have "render c sps (filter (\<lambda>w. \<not> orphan sps w) ws) = render c sps ws"
    by (intro render_cong) simp
  then show ?thesis by (simp add: cli_cases)
qed

theorem index_lists_in_visit_order_witness:
  "render False [mk_space 1 2, mk_space 2 2, mk_space 3 1, mk_space 4 1]
     [mk_window ''kitty'' ''dev'' 1, mk_window ''Rio'' [] 4] =
     Inr \<lparr>out = [u ''display 1 (2 spaces)'', u ''   3    --'', u ''   4    Rio'', [],
                 u ''display 2 (2 spaces)'', u ''   1    kitty: dev'', u ''   2    --'', []],
          free_indices = [3, 2], terminal_indices = [4, 1]\<rparr> \<and>
   map idx (visit_order [mk_space 1 2, mk_space 2 2, mk_space 3 1, mk_space 4 1]) = [3, 4, 1, 2] \<and>
   stdout (cli False (Some [mk_space 1 2, mk_space 2 2, mk_space 3 1, mk_space 4 1])
             (Some [mk_window ''kitty'' ''dev'' 1, mk_window ''Rio'' [] 4]) []) ! 8 =
     u ''2 free (3, 2)  2 with terminals (4, 1)''"
proof -
  let ?sps = "[mk_space 1 2, mk_space 2 2, mk_space 3 1, mk_space 4 1]"
  let ?ws = "[mk_window ''kitty'' ''dev'' 1, mk_window ''Rio'' [] 4]"
  let ?t = "\<lparr>out = [u ''display 1 (2 spaces)'', u ''   3    --'', u ''   4    Rio'', [],
                 u ''display 2 (2 spaces)'', u ''   1    kitty: dev'', u ''   2    --'', []],
          free_indices = [3, 2], terminal_indices = [4, 1]\<rparr>"
  have h: "render False ?sps ?ws = Inr ?t"
    by (simp add: run_defs eval_defs)
  have v: "map idx (visit_order ?sps) = [3, 4, 1, 2]"
    by (simp add: visit_order_def spaces_of_display_def idx_def disp_def mk_space_def get_or_def
          sorted_list_of_set_sort_remdups)
  have s: "summary_line False [3, 2] [4, 1] = u ''2 free (3, 2)  2 with terminals (4, 1)''"
    by (simp add: run_defs eval_defs)
  from index_lists_in_visit_order [OF h, of "[]"] h v s
  show ?thesis by simp
qed

theorem windows_unavailable_all_free_witness:
  "cli False (Some [mk_space 1 1, mk_space 2 1, mk_space 3 1]) None [] =
     \<lparr>stdout = [u ''display 1 (3 spaces)'', u ''   1    --'', u ''   2    --'', u ''   3    --'',
                 [], u ''3 free (1, 2, 3)''],
      outcome = Returned\<rparr>"
proof -
  let ?sps = "[mk_space 1 1, mk_space 2 1, mk_space 3 1]"
  have v: "visit_order ?sps = ?sps"
    by (simp add: visit_order_def spaces_of_display_def idx_def disp_def mk_space_def get_or_def
          sorted_list_of_set_sort_remdups)
  have f: "free_table False ?sps =
     [u ''display 1 (3 spaces)'', u ''   1    --'', u ''   2    --'', u ''   3    --'', []]"
    by (simp add: free_table_def spaces_of_display_def idx_def disp_def row_def label_text_def
          sorted_list_of_set_sort_remdups run_defs eval_defs)
  have s: "summary_line False (map idx ?sps) [] = u ''3 free (1, 2, 3)''"
    by (simp add: idx_def run_defs eval_defs)
  from windows_unavailable_all_free [of False ?sps "[]"]
  show ?thesis unfolding v f s by simp
qed

theorem orphan_windows_ignored_witness:
  "cli False (Some [mk_space 1 1])
     (Some [mk_window ''kitty'' ''dev'' 1, mk_window ''Finder'' [] 7,
            (mk_window ''Zoom'' [] 9)\<lparr>w_app := None\<rparr>]) [] =
     \<lparr>stdout = [u ''display 1 (1 spaces)'', u ''   1    kitty: dev'', [],
                 u ''0 free  1 with terminals (1)''],
      outcome = Returned\<rparr>"
proof -
  let ?ws = "[mk_window ''kitty'' ''dev'' 1, mk_window ''Finder'' [] 7,
            (mk_window ''Zoom'' [] 9)\<lparr>w_app := None\<rparr>]"
  have f: "filter (\<lambda>w. \<not> orphan [mk_space 1 1] w) ?ws = [mk_window ''kitty'' ''dev'' 1]"
    by (simp add: orphan_def excluded_def space_of_def idx_def mk_space_def eval_defs)
  have e: "cli False (Some [mk_space 1 1]) (Some [mk_window ''kitty'' ''dev'' 1]) [] =
     \<lparr>stdout = [u ''display 1 (1 spaces)'', u ''   1    kitty: dev'', [],
                 u ''0 free  1 with terminals (1)''],
      outcome = Returned\<rparr>"
    by (simp add: run_defs eval_defs)
  from orphan_windows_ignored [of False "[mk_space 1 1]" ?ws "[]"]
  show ?thesis unfolding f e by simp
qed

section \<open>The placeholder of a free space\<close>

lemma join_has_space: "32 \<in> set (join (u ''  '') (p # q # ps))"
  by (simp add: u_def)

lemma marker_no_space: "32 \<notin> set (dim c (u ''--''))"
  by (cases c) (simp_all add: dim_def ansi_def u_def)

lemma marker_not_terminal: "dim c (u ''--'') \<notin> set TERMINAL_APPS"
  by (cases c) (simp_all add: dim_def ansi_def u_def TERMINAL_APPS_def)

lemma terminal_entry_not_marker:
  assumes "is_terminal w"
  shows "terminal_entry c w \<noteq> dim c (u ''--'')"
proof (cases c)
  case True
  then show ?thesis
    by (simp add: terminal_entry_def green_def dim_def ansi_def u_def Let_def)
next
  case False
  from assms obtain a where a: "w_app w = Some a" "a \<in> set TERMINAL_APPS"
    by (auto simp: is_terminal_def split: option.splits)
  have n: "app_name w = a" using a(1) by (rule app_Some)
  show ?thesis
  proof (cases "strip (get_or (w_title w) []) = []")
    case True
    with a(2) marker_not_terminal [of c] show ?thesis
      by (auto simp: terminal_entry_def n Let_def green_def dim_def ansi_def False)
  next
    case nonempty: False
    have "32 \<in> set (terminal_entry c w)"
      using nonempty by (simp add: terminal_entry_def n Let_def green_def ansi_def False u_def)
    with marker_no_space [of c] show ?thesis by metis
  qed
qed

lemma app_entry_marker:
  assumes "app_entry a n = dim c (u ''--'')"
  shows "n \<le> 1" and "a = dim c (u ''--'')"
proof -
  show "n \<le> 1"
  proof (rule ccontr)
    assume "\<not> n \<le> 1"
    then have "32 \<in> set (app_entry a n)" by (simp add: app_entry_def u_def)
    with assms marker_no_space [of c] show False by simp
  qed
  with assms show "a = dim c (u ''--'')" by (simp add: app_entry_def)
qed

lemma placeholder_single:
  assumes w: "w_app w = Some (dim c (u ''--''))"
  shows "format_windows_for_space c [w] = Inr (dim c (u ''--''))"
proof -
  have h: "has_app w" and n: "app_name w = dim c (u ''--'')"
    using w by (simp_all add: app_Some)
  have nt: "\<not> is_terminal w"
    using marker_not_terminal [of c] by (simp add: app_Some(3) [OF w])
  have "summary_parts c [w] = Inr [dim c (u ''--'')]"
    by (simp add: summary_parts_eq h nt other_apps_def n app_entry_def)
  then show ?thesis by (simp add: format_windows_for_space_def)
qed

lemma placeholder_only:
  assumes f: "format_windows_for_space c ws = Inr (dim c (u ''--''))" and ne: "ws \<noteq> []"
  shows "\<exists>w. ws = [w] \<and> w_app w = Some (dim c (u ''--''))"
proof -
  from f ne obtain parts where sp: "summary_parts c ws = Inr parts"
    by (auto simp: format_windows_for_space_def split: sum.splits)
  have pne: "parts \<noteq> []" by (rule parts_nonempty [OF sp ne])
  with f ne sp have j: "join (u ''  '') parts = dim c (u ''--'')"
    by (simp add: format_windows_for_space_def)
  have one: "parts = [dim c (u ''--'')]"
  proof (cases parts)
    case Nil
    with pne show ?thesis by simp
  next
    case outer: (Cons p ps)
    show ?thesis
    proof (cases ps)
      case Nil
      with outer j show ?thesis by simp
    next
      case (Cons q qs)
      with outer j have "32 \<in> set (dim c (u ''--''))"
        using join_has_space [of p q qs] by simp
      with marker_no_space show ?thesis by blast
    qed
  qed
  from sp have all: "list_all has_app ws" by (rule summary_parts_has_app)
  define ts where "ts = filter is_terminal ws"
  define apps where "apps = sorted_list_of_set (set (other_apps ws))"
  define cnt where "cnt = (\<lambda>a. length (filter (\<lambda>w. app_name w = a) ws))"
  from sp all one have eq:
    "map (terminal_entry c) ts @ map (\<lambda>a. app_entry a (cnt a)) apps = [dim c (u ''--'')]"
    by (simp add: summary_parts_eq ts_def apps_def cnt_def)
  have ts: "ts = []"
  proof (rule ccontr)
    assume "ts \<noteq> []"
    then obtain w' ts' where c: "ts = w' # ts'" by (cases ts) auto
    then have "w' \<in> set (filter is_terminal ws)" by (simp add: ts_def [symmetric])
    then have "is_terminal w'" by simp
    moreover from eq c have "terminal_entry c w' = dim c (u ''--'')" by simp
    ultimately show False using terminal_entry_not_marker by blast
  qed
  with eq have "map (\<lambda>a. app_entry a (cnt a)) apps = [dim c (u ''--'')]" by simp
  then obtain a where a: "apps = [a]" "app_entry a (cnt a) = dim c (u ''--'')"
    by (cases apps) auto
  from app_entry_marker [OF a(2)] have n1: "cnt a \<le> 1" and aD: "a = dim c (u ''--'')" .
  have "set apps = set (other_apps ws)" by (simp add: apps_def)
  with a(1) have oa: "set (other_apps ws) = {a}" by simp
  have "app_name w = a" if "w \<in> set ws" for w
  proof -
    from ts that have "\<not> is_terminal w" by (auto simp: ts_def filter_empty_conv)
    with that have "app_name w \<in> set (other_apps ws)" by (auto simp: other_apps_def)
    with oa show ?thesis by simp
  qed
  then have "filter (\<lambda>w. app_name w = a) ws = ws" by (simp add: filter_id_conv)
  with n1 have "length ws \<le> 1" by (simp add: cnt_def)
  with ne obtain w where ws: "ws = [w]" by (cases ws) auto
  with \<open>\<And>w. w \<in> set ws \<Longrightarrow> app_name w = a\<close> have "app_name w = a" by simp
  moreover from all ws have "has_app w" by simp
  ultimately have "w_app w = Some (dim c (u ''--''))"
    using aD by (simp add: has_app_app_name)
  with ws show ?thesis by blast
qed

text \<open>
  C2, as amended.  The index of a space is appended to the free list if and only if its
  filtered window list is empty: in a completed run the free list is the visit order
  restricted to the spaces without surviving windows.  The summary of a space is the
  placeholder marker if its filtered window list is empty; conversely, a summary that
  reads exactly as the marker comes from an empty list or from a list of exactly one
  window whose app name is itself the text of the marker.
\<close>

theorem placeholder_iff:
  "(format_windows_for_space c ws = Inr (dim c (u ''--'')) \<longleftrightarrow>
      ws = [] \<or> (\<exists>w. ws = [w] \<and> w_app w = Some (dim c (u ''--'')))) \<and>
   (render c sps raw = Inr t \<longrightarrow>
      free_indices t = map idx (filter (\<lambda>s. windows_on raw (idx s) = []) (visit_order sps)))"
proof -
  have "format_windows_for_space c ws = Inr (dim c (u ''--'')) \<longleftrightarrow>
      ws = [] \<or> (\<exists>w. ws = [w] \<and> w_app w = Some (dim c (u ''--'')))"
  proof
    assume "format_windows_for_space c ws = Inr (dim c (u ''--''))"
    then show "ws = [] \<or> (\<exists>w. ws = [w] \<and> w_app w = Some (dim c (u ''--'')))"
      using placeholder_only by blast
  next
    assume "ws = [] \<or> (\<exists>w. ws = [w] \<and> w_app w = Some (dim c (u ''--'')))"
    then show "format_windows_for_space c ws = Inr (dim c (u ''--''))"
      using placeholder_single by (auto simp: format_windows_for_space_def)
  qed
  moreover have "free_indices t =
      map idx (filter (\<lambda>s. windows_on raw (idx s) = []) (visit_order sps))"
    if "render c sps raw = Inr t"
    using render_indices [OF that] by simp
  ultimately show ?thesis by blast
qed

theorem placeholder_iff_witness:
  "format_windows_for_space False [mk_window ''kitty'' ''dev'' 1] \<noteq> Inr (dim False (u ''--'')) \<and>
   render False [mk_space 1 1, mk_space 2 1] [mk_window ''kitty'' ''dev'' 1] =
     Inr \<lparr>out = [u ''display 1 (2 spaces)'', u ''   1    kitty: dev'', u ''   2    --'', []],
          free_indices = [2], terminal_indices = [1]\<rparr> \<and>
   map idx (filter (\<lambda>s. windows_on [mk_window ''kitty'' ''dev'' 1] (idx s) = [])
              (visit_order [mk_space 1 1, mk_space 2 1])) = [2]"
proof -
  let ?t = "\<lparr>out = [u ''display 1 (2 spaces)'', u ''   1    kitty: dev'', u ''   2    --'', []],
          free_indices = [2], terminal_indices = [1]\<rparr>"
  have h: "render False [mk_space 1 1, mk_space 2 1] [mk_window ''kitty'' ''dev'' 1] = Inr ?t"
    by (simp add: run_defs eval_defs)
  have n: "w_app (mk_window ''kitty'' ''dev'' 1) \<noteq> Some (dim False (u ''--''))"
    by (simp add: eval_defs)
  from placeholder_iff [of False "[mk_window ''kitty'' ''dev'' 1]"
         "[mk_space 1 1, mk_space 2 1]" "[mk_window ''kitty'' ''dev'' 1]" ?t] h n
  show ?thesis by simp
qed

text \<open>
  C2, as stated, fails: with colour off, one visible window whose app is named \<open>--\<close>
  is summarised as \<open>--\<close>, the placeholder, although the filtered window list of its
  space is not empty.  The line of that space is then the line of a free space, while
  the summary line counts no free space.
\<close>

theorem placeholder_counterexample:
  "format_windows_for_space False [mk_window ''--'' [] 1] = Inr (dim False (u ''--'')) \<and>
   [mk_window ''--'' [] 1] \<noteq> [] \<and>
   cli False (Some [mk_space 1 1]) (Some [mk_window ''--'' [] 1]) [] =
     \<lparr>stdout = [u ''display 1 (1 spaces)'', u ''   1    --'', [], u ''0 free''],
      outcome = Returned\<rparr> \<and>
   cli False (Some [mk_space 1 1]) (Some []) [] =
     \<lparr>stdout = [u ''display 1 (1 spaces)'', u ''   1    --'', [], u ''1 free (1)''],
      outcome = Returned\<rparr>"
  by (simp add: run_defs eval_defs)

end
